theory Spec2Isabelle
  imports Complex_Main "HOL-Library.Word"
begin

section \<open>Conventions\<close>

text \<open>
  The program is TypeScript. Its \<^verbatim>\<open>number\<close> values are modelled exactly: counts,
  coordinates and gray levels as \<^typ>\<open>nat\<close>, every quantity that is divided or rooted as
  \<^typ>\<open>real\<close>. The elements of a \<^verbatim>\<open>Uint8ClampedArray\<close> are \<^typ>\<open>8 word\<close>. Reading a typed
  array out of range yields \<^verbatim>\<open>undefined\<close>, which arithmetic turns into \<^verbatim>\<open>NaN\<close>; both are the
  value \<^term>\<open>None\<close> of an option type, and every comparison with it is false. Writing a
  typed array out of range has no effect, as \<open>xs[i := v]\<close> has none.
  Rounding of intermediate results to binary64 is not modelled: sums of integers below
  \<open>2\<^sup>5\<^sup>3\<close> are exact in both, quotients, products with decimal constants and square roots
  are taken as exact reals.
\<close>

section \<open>Geometric estimator (constants.ts, lines 41 to 48)\<close>

definition estimateH :: "real \<Rightarrow> real \<Rightarrow> real \<Rightarrow> real" where
  "estimateH L A_hand A_shadow =
     (if A_shadow \<le> 0 \<or> A_hand \<le> 0 then L
      else let ratio = A_hand / A_shadow in
        if ratio > 1 then 0
        else let h = L - L * sqrt ratio in max 0 h)"

section \<open>Shadow summary (interface ShadowData of the segmenter module)\<close>

record ShadowData =
  count :: nat
  minX :: nat
  minY :: nat
  maxX :: nat
  maxY :: nat
  avgIntensity :: real

section \<open>Segmenter (generateShadowMask with Otsu threshold and saturation filter)\<close>

subsection \<open>Typed arrays and number primitives\<close>

type_synonym byte = "8 word"

text \<open>
  \<open>rd a i\<close> is the read \<^verbatim>\<open>a[i]\<close> of a \<^verbatim>\<open>Uint8ClampedArray\<close>; \<open>Math_round\<close> rounds half up;
  \<open>js_lt a c\<close> is \<^verbatim>\<open>a < c\<close> for a possibly \<^verbatim>\<open>NaN\<close> left operand; \<open>ToUint8Clamp\<close> is the
  conversion applied by a store into a \<^verbatim>\<open>Uint8ClampedArray\<close>.
\<close>

definition rd :: "byte list \<Rightarrow> nat \<Rightarrow> nat option" where
  "rd a i = (if i < length a then Some (unat (a ! i)) else None)"

definition Math_round :: "real \<Rightarrow> int" where
  "Math_round x = \<lfloor>x + 1 / 2\<rfloor>"

definition js_lt :: "real option \<Rightarrow> real \<Rightarrow> bool" where
  "js_lt a c = (case a of None \<Rightarrow> False | Some v \<Rightarrow> v < c)"

text \<open>
  Line 76, \<^verbatim>\<open>Math.round(r * 0.299 + g * 0.587 + b * 0.114)\<close>: \<^verbatim>\<open>NaN\<close> as soon as one channel
  is \<^verbatim>\<open>undefined\<close>.
\<close>

definition perceptual_gray :: "nat option \<Rightarrow> nat option \<Rightarrow> nat option \<Rightarrow> nat option" where
  "perceptual_gray r g b =
     (case (r, g, b) of
        (Some r', Some g', Some b') \<Rightarrow>
          Some (nat (Math_round (real r' * 0.299 + real g' * 0.587 + real b' * 0.114)))
      | _ \<Rightarrow> None)"

definition ToUint8Clamp :: "nat option \<Rightarrow> nat" where
  "ToUint8Clamp v = (case v of None \<Rightarrow> 0 | Some n \<Rightarrow> min n 255)"

subsection \<open>computeOtsuThreshold (lines 16 to 44)\<close>

text \<open>
  The mutable locals of the second loop are the fields of \<open>otsu_state\<close>. One call of
  \<open>otsu_loop\<close> is one test of the loop condition \<^verbatim>\<open>t < 256\<close> followed by the loop body;
  \<^verbatim>\<open>continue\<close> is the recursive call on \<open>t + 1\<close> without any other update, \<^verbatim>\<open>break\<close> returns
  the state.
\<close>

record otsu_state =
  sumB :: real
  wB :: real
  wF :: real
  varMax :: real
  threshold :: nat

function otsu_loop :: "nat list \<Rightarrow> real \<Rightarrow> real \<Rightarrow> nat \<Rightarrow> otsu_state \<Rightarrow> otsu_state" where
  "otsu_loop histogram totalPixels sum_all t s =
     (if t < 256 then
        (let s1 = s\<lparr>wB := wB s + real (histogram ! t)\<rparr> in
         if wB s1 = 0 then otsu_loop histogram totalPixels sum_all (t + 1) s1
         else
           (let s2 = s1\<lparr>wF := totalPixels - wB s1\<rparr> in
            if wF s2 = 0 then s2
            else
              (let s3 = s2\<lparr>sumB := sumB s2 + real t * real (histogram ! t)\<rparr>;
                   mB = sumB s3 / wB s3;
                   mF = (sum_all - sumB s3) / wF s3;
                   varBetween = wB s3 * wF s3 * (mB - mF) * (mB - mF);
                   s4 = (if varBetween > varMax s3
                         then s3\<lparr>varMax := varBetween, threshold := t\<rparr> else s3)
               in otsu_loop histogram totalPixels sum_all (t + 1) s4)))
      else s)"
  by pat_completeness auto
termination
  by (relation "measure (\<lambda>(histogram, totalPixels, sum_all, t, s). 256 - t)") auto

definition computeOtsuThreshold :: "nat list \<Rightarrow> nat \<Rightarrow> nat" where
  "computeOtsuThreshold histogram totalPixels =
     (let sum_all = fold (\<lambda>i sum_all. sum_all + real i * real (histogram ! i)) [0..<256] 0
      in threshold (otsu_loop histogram (real totalPixels) sum_all 0
            \<lparr>sumB = 0, wB = 0, wF = 0, varMax = 0, threshold = 0\<rparr>))"

subsection \<open>getSaturation (lines 50 to 55)\<close>

text \<open>
  \<^verbatim>\<open>Math.max\<close> and \<^verbatim>\<open>Math.min\<close> of an \<^verbatim>\<open>undefined\<close> argument are \<^verbatim>\<open>NaN\<close>, \<^verbatim>\<open>NaN === 0\<close> is
  false, and the quotient is \<^verbatim>\<open>NaN\<close>.
\<close>

definition getSaturation :: "nat option \<Rightarrow> nat option \<Rightarrow> nat option \<Rightarrow> real option" where
  "getSaturation r g b =
     (case (r, g, b) of
        (Some r', Some g', Some b') \<Rightarrow>
          (let max_v = max (max r' g') b'; min_v = min (min r' g') b' in
           if max_v = 0 then Some 0
           else Some ((real max_v - real min_v) / real max_v * 255))
      | _ \<Rightarrow> None)"

subsection \<open>generateShadowMask (lines 61 to 146)\<close>

text \<open>
  The parameter \<open>imageData\<close> is the buffer \<^verbatim>\<open>ctx.getImageData(0, 0, width, height).data\<close>,
  four bytes per pixel; the canvas interface itself is outside the repository. The
  function returns the summary together with the buffer it hands to \<^verbatim>\<open>putImageData\<close>.

  First loop (lines 70 to 79), \<^verbatim>\<open>for (let i = 0; i < data.length; i += 4)\<close>: the values of
  \<open>i\<close> are \<open>4 * k\<close> for \<open>k < (length data + 3) div 4\<close>. A gray level is at most 255, so
  \<^verbatim>\<open>histogram[gray]++\<close> stays inside the 256 bins; for \<^verbatim>\<open>NaN\<close> it touches no bin.
\<close>

definition gray_step :: "byte list \<Rightarrow> nat \<Rightarrow> nat list \<times> nat list \<Rightarrow> nat list \<times> nat list" where
  "gray_step data i = (\<lambda>(grayscale, histogram).
     (let r = rd data i; g = rd data (i + 1); b = rd data (i + 2);
          gray = perceptual_gray r g b
      in (grayscale[i div 4 := ToUint8Clamp gray],
          (case gray of None \<Rightarrow> histogram
           | Some v \<Rightarrow> histogram[v := histogram ! v + 1]))))"

definition gray_loop :: "byte list \<Rightarrow> nat \<Rightarrow> nat list \<times> nat list" where
  "gray_loop data numPixels =
     fold (gray_step data) (map (\<lambda>k. 4 * k) [0..<(length data + 3) div 4])
       (replicate numPixels 0, replicate 256 0)"

text \<open>The local constant \<^verbatim>\<open>finalThreshold\<close> (lines 82 to 86).\<close>

definition finalThreshold :: "byte list \<Rightarrow> nat \<Rightarrow> nat \<Rightarrow> nat" where
  "finalThreshold data width height =
     (let numPixels = width * height;
          (grayscale, histogram) = gray_loop data numPixels;
          otsuThreshold = computeOtsuThreshold histogram numPixels
      in min (max otsuThreshold 30) 80)"

text \<open>
  Second loop (lines 89 to 134): the buffer and the mutable locals are the fields of
  \<open>mask_state\<close>; \<open>pixel_step\<close> is the body of the inner loop at \<open>(x, y)\<close>.
\<close>

record mask_state =
  data :: "byte list"
  shadowPixelCount :: nat
  intensitySum :: nat
  minX_var :: nat
  minY_var :: nat
  maxX_var :: nat
  maxY_var :: nat

definition pixel_step :: "nat list \<Rightarrow> nat \<Rightarrow> nat \<Rightarrow> nat \<Rightarrow> nat \<Rightarrow> mask_state \<Rightarrow> mask_state" where
  "pixel_step grayscale thr width y x s =
     (let idx = y * width + x;
          gray = grayscale ! idx;
          r = rd (data s) (idx * 4);
          g = rd (data s) (idx * 4 + 1);
          b = rd (data s) (idx * 4 + 2);
          sat = getSaturation r g b;
          isShadow = (gray < thr \<and> (js_lt sat 60 \<or> gray < 30));
          s' = (if isShadow
                then s\<lparr>shadowPixelCount := shadowPixelCount s + 1,
                       intensitySum := intensitySum s + gray,
                       minX_var := (if x < minX_var s then x else minX_var s),
                       maxX_var := (if x > maxX_var s then x else maxX_var s),
                       minY_var := (if y < minY_var s then y else minY_var s),
                       maxY_var := (if y > maxY_var s then y else maxY_var s),
                       data := (data s)[idx * 4 := 0, idx * 4 + 1 := 0, idx * 4 + 2 := 0]\<rparr>
                else s\<lparr>data := (data s)[idx * 4 := 255, idx * 4 + 1 := 255, idx * 4 + 2 := 255]\<rparr>)
      in s'\<lparr>data := (data s')[idx * 4 + 3 := 255]\<rparr>)"

definition mask_loop :: "nat list \<Rightarrow> nat \<Rightarrow> nat \<Rightarrow> nat \<Rightarrow> mask_state \<Rightarrow> mask_state" where
  "mask_loop grayscale thr width height s =
     fold (\<lambda>y. fold (\<lambda>x. pixel_step grayscale thr width y x) [0..<width])
       [0..<height] s"

definition generateShadowMask :: "byte list \<Rightarrow> nat \<Rightarrow> nat \<Rightarrow> ShadowData \<times> byte list" where
  "generateShadowMask imageData width height =
     (let numPixels = width * height;
          (grayscale, histogram) = gray_loop imageData numPixels;
          s = mask_loop grayscale (finalThreshold imageData width height) width height
                \<lparr>data = imageData, shadowPixelCount = 0, intensitySum = 0,
                 minX_var = width, minY_var = height, maxX_var = 0, maxY_var = 0\<rparr>;
          c = shadowPixelCount s
      in (\<lparr>count = c,
           minX = (if c > 0 then minX_var s else 0),
           minY = (if c > 0 then minY_var s else 0),
           maxX = (if c > 0 then maxX_var s else 0),
           maxY = (if c > 0 then maxY_var s else 0),
           avgIntensity = (if c > 0 then real (intensitySum s) / real c else 0)\<rparr>,
          data s))"


section \<open>Stability tracker (components/CameraAnalysis.tsx, processFrame, lines 117 to 163)\<close>

text \<open>
  The tracker state is the ref \<^verbatim>\<open>frameHistory\<close> and the React state \<^verbatim>\<open>isStable\<close>; \<open>observe\<close>
  is the part of \<^verbatim>\<open>processFrame\<close> that follows the segmentation of one frame, with the
  value passed to \<^verbatim>\<open>setIsStable\<close> taken as the new state. \<open>reset\<close> is the state set when
  sampling stops (lines 88 to 91).
\<close>

record FrameStats =
  area :: real
  width :: real
  height :: real
  cx :: real
  cy :: real
  intensity :: real

record stats =
  mean :: real
  stdDev :: real

record tracker =
  frameHistory :: "FrameStats list"
  isStable :: bool

definition currentFrame :: "ShadowData \<Rightarrow> FrameStats" where
  "currentFrame d =
     (let w = real (maxX d) - real (minX d);
          h = real (maxY d) - real (minY d)
      in \<lparr>area = real (count d), width = w, height = h,
          cx = real (minX d) + w / 2, cy = real (minY d) + h / 2,
          intensity = avgIntensity d\<rparr>)"

definition getStats :: "real list \<Rightarrow> stats" where
  "getStats values =
     (let mean = foldl (\<lambda>a b. a + b) 0 values / real (length values);
          stdDev = sqrt (foldl (\<lambda>a b. a + (b - mean)\<^sup>2) 0 values / real (length values))
      in \<lparr>mean = mean, stdDev = stdDev\<rparr>)"

definition totalDeltas :: "FrameStats list \<Rightarrow> real \<times> real" where
  "totalDeltas history =
     fold (\<lambda>i (totalWDelta, totalHDelta).
             (totalWDelta + \<bar>width (history ! i) - width (history ! (i - 1))\<bar>,
              totalHDelta + \<bar>height (history ! i) - height (history ! (i - 1))\<bar>))
       [1..<length history] (0, 0)"

definition stabilityVerdict :: "FrameStats list \<Rightarrow> bool" where
  "stabilityVerdict history =
     (let areaStats = getStats (map area history);
          widthStats = getStats (map width history);
          heightStats = getStats (map height history);
          xStats = getStats (map cx history);
          yStats = getStats (map cy history);
          intensityStats = getStats (map intensity history);
          (totalWDelta, totalHDelta) = totalDeltas history;
          avgWDelta = totalWDelta / (real (length history) - 1);
          avgHDelta = totalHDelta / (real (length history) - 1);
          areaPresent = (mean areaStats > 150);
          areaStable = (stdDev areaStats < mean areaStats * 0.05);
          dimensionsStable = (stdDev widthStats < 3.0 \<and> stdDev heightStats < 3.0);
          positionStable = (stdDev xStats < 2.0 \<and> stdDev yStats < 2.0);
          jitterLow = (avgWDelta < 1.5 \<and> avgHDelta < 1.5);
          shadowQuality = (mean intensityStats < 65)
      in areaPresent \<and> areaStable \<and> dimensionsStable \<and> positionStable \<and> jitterLow
           \<and> shadowQuality)"

definition observe :: "tracker \<Rightarrow> ShadowData \<Rightarrow> tracker" where
  "observe s d =
     (let pushed = frameHistory s @ [currentFrame d] in
      if length pushed > 25
      then (let history = tl pushed
            in \<lparr>frameHistory = history, isStable = stabilityVerdict history\<rparr>)
      else s\<lparr>frameHistory := pushed\<rparr>)"

definition reset :: tracker where
  "reset = \<lparr>frameHistory = [], isStable = False\<rparr>"

text \<open>Feeding a sequence of summaries, one frame after the other.\<close>

definition observeAll :: "tracker \<Rightarrow> ShadowData list \<Rightarrow> tracker" where
  "observeAll s ds = foldl observe s ds"

subsection \<open>The stability predicate in the words of the specification\<close>

definition window_mean :: "real list \<Rightarrow> real" where
  "window_mean xs = sum_list xs / real (length xs)"

definition window_stddev :: "real list \<Rightarrow> real" where
  "window_stddev xs = sqrt ((\<Sum>x\<leftarrow>xs. (x - window_mean xs)\<^sup>2) / real (length xs))"

definition mean_abs_delta :: "real list \<Rightarrow> real" where
  "mean_abs_delta xs = (\<Sum>i = 1..<length xs. \<bar>xs ! i - xs ! (i - 1)\<bar>) / (real (length xs) - 1)"

definition six_conditions :: "FrameStats list \<Rightarrow> bool" where
  "six_conditions w \<longleftrightarrow>
     window_mean (map area w) > 150
   \<and> window_stddev (map area w) < 0.05 * window_mean (map area w)
   \<and> (window_stddev (map width w) < 3 \<and> window_stddev (map height w) < 3)
   \<and> (window_stddev (map cx w) < 2 \<and> window_stddev (map cy w) < 2)
   \<and> (mean_abs_delta (map width w) < 1.5 \<and> mean_abs_delta (map height w) < 1.5)
   \<and> window_mean (map intensity w) < 65"


section \<open>What the two loops of the segmenter compute\<close>

text \<open>
  \<open>gray_at d j\<close> is the content of \<^verbatim>\<open>grayscale[j]\<close> after the first loop, \<open>isShadow_at\<close> the
  value of \<^verbatim>\<open>isShadow\<close> at pixel \<open>j\<close>, both in terms of the buffer \<open>d\<close> as it is before the
  call. \<open>mask_inv\<close> and \<open>gray_inv\<close> are the loop invariants after \<open>k\<close> pixels.
\<close>

definition gray_at :: "byte list \<Rightarrow> nat \<Rightarrow> nat" where
  "gray_at d j =
     (if j * 4 < length d
      then ToUint8Clamp (perceptual_gray (rd d (j * 4)) (rd d (j * 4 + 1)) (rd d (j * 4 + 2)))
      else 0)"

definition isShadow_at :: "byte list \<Rightarrow> nat \<Rightarrow> nat \<Rightarrow> bool" where
  "isShadow_at d thr j \<longleftrightarrow>
     gray_at d j < thr
   \<and> (js_lt (getSaturation (rd d (j * 4)) (rd d (j * 4 + 1)) (rd d (j * 4 + 2))) 60
      \<or> gray_at d j < 30)"

definition shadow_set :: "byte list \<Rightarrow> nat \<Rightarrow> nat \<Rightarrow> nat set" where
  "shadow_set d thr k = {j. j < k \<and> isShadow_at d thr j}"

definition mask_byte :: "bool \<Rightarrow> nat \<Rightarrow> byte" where
  "mask_byte sh c = (if c = 3 then 255 else if sh then 0 else 255)"

definition mask_inv :: "byte list \<Rightarrow> nat \<Rightarrow> nat \<Rightarrow> nat \<Rightarrow> nat \<Rightarrow> mask_state \<Rightarrow> bool" where
  "mask_inv d thr w h k t \<longleftrightarrow>
     length (data t) = length d
   \<and> (\<forall>i < length d. data t ! i =
         (if i div 4 < k then mask_byte (isShadow_at d thr (i div 4)) (i mod 4) else d ! i))
   \<and> shadowPixelCount t = card (shadow_set d thr k)
   \<and> intensitySum t = (\<Sum>j \<in> shadow_set d thr k. gray_at d j)
   \<and> minX_var t = Min (insert w ((\<lambda>j. j mod w) ` shadow_set d thr k))
   \<and> maxX_var t = Max (insert 0 ((\<lambda>j. j mod w) ` shadow_set d thr k))
   \<and> minY_var t = Min (insert h ((\<lambda>j. j div w) ` shadow_set d thr k))
   \<and> maxY_var t = Max (insert 0 ((\<lambda>j. j div w) ` shadow_set d thr k))"

definition pixel_gray :: "byte list \<Rightarrow> nat \<Rightarrow> nat option" where
  "pixel_gray d j = perceptual_gray (rd d (j * 4)) (rd d (j * 4 + 1)) (rd d (j * 4 + 2))"

definition gray_inv :: "byte list \<Rightarrow> nat \<Rightarrow> nat \<Rightarrow> nat list \<times> nat list \<Rightarrow> bool" where
  "gray_inv d n k = (\<lambda>(grayscale, histogram).
     length grayscale = n
   \<and> (\<forall>j < n. grayscale ! j = (if j < k then ToUint8Clamp (pixel_gray d j) else 0))
   \<and> length histogram = 256
   \<and> (\<forall>v < 256. histogram ! v = card {j. j < k \<and> pixel_gray d j = Some v}))"

definition mask_result :: "byte list \<Rightarrow> nat \<Rightarrow> nat \<Rightarrow> mask_state" where
  "mask_result d w h =
     mask_loop (fst (gray_loop d (w * h))) (finalThreshold d w h) w h
       \<lparr>data = d, shadowPixelCount = 0, intensitySum = 0,
        minX_var = w, minY_var = h, maxX_var = 0, maxY_var = 0\<rparr>"

section \<open>The classification rule in the words of the specification\<close>

text \<open>
  For a buffer that holds the pixel \<open>j\<close>: its channels R, G, B (\<open>channel d j 0\<close>, \<open>1\<close>, \<open>2\<close>),
  the rounded perceptual luminance and the saturation \<open>255 (max - min) / max\<close>, 0 when
  \<open>max = 0\<close>.
\<close>

definition channel :: "byte list \<Rightarrow> nat \<Rightarrow> nat \<Rightarrow> nat" where
  "channel d j c = unat (d ! (j * 4 + c))"

definition spec_gray :: "byte list \<Rightarrow> nat \<Rightarrow> nat" where
  "spec_gray d j =
     nat (round (0.299 * real (channel d j 0) + 0.587 * real (channel d j 1)
                 + 0.114 * real (channel d j 2)))"

definition spec_sat :: "byte list \<Rightarrow> nat \<Rightarrow> real" where
  "spec_sat d j =
     (let hi = max (channel d j 0) (max (channel d j 1) (channel d j 2));
          lo = min (channel d j 0) (min (channel d j 1) (channel d j 2))
      in if hi = 0 then 0 else 255 * (real hi - real lo) / real hi)"

definition spec_shadow :: "byte list \<Rightarrow> nat \<Rightarrow> nat \<Rightarrow> bool" where
  "spec_shadow d clampedThreshold j \<longleftrightarrow>
     spec_gray d j < clampedThreshold \<and> (spec_sat d j < 60 \<or> spec_gray d j < 30)"

section \<open>Otsu's threshold as a maximiser of the between-class variance\<close>

















section \<open>Properties of the estimator\<close>

lemma estimateH_main_branch:
  assumes "0 < A_hand" "A_hand \<le> A_shadow"
  shows "estimateH L A_hand A_shadow = max 0 (L - L * sqrt (A_hand / A_shadow))"
  using assms by (simp add: estimateH_def Let_def)

lemma sqrt_ratio_unit:
  assumes "0 < A_hand" "A_hand \<le> A_shadow"
  shows "0 \<le> sqrt (A_hand / A_shadow) \<and> sqrt (A_hand / A_shadow) \<le> 1"
proof -
  have "A_hand / A_shadow \<le> 1" using assms by simp
  moreover have "0 \<le> A_hand / A_shadow" using assms by simp
  ultimately show ?thesis by simp
qed

text \<open>
  C10. For every \<open>L > 0\<close> and all real \<open>A_hand\<close>, \<open>A_shadow\<close> the estimator returns a value
  in \<open>[0, L]\<close>: it returns \<open>L\<close> when \<open>A_shadow \<le> 0\<close> or \<open>A_hand \<le> 0\<close>, it returns \<open>0\<close> when
  \<open>A_hand > A_shadow > 0\<close>, and otherwise \<open>max 0 (L - L * sqrt (A_hand / A_shadow))\<close>. The three
  cases are exhaustive, and the quotient is formed only in the last two, where
  \<open>A_shadow > 0\<close>.
\<close>

theorem estimateH_range:
  assumes "0 < L"
  shows "0 \<le> estimateH L A_hand A_shadow \<and> estimateH L A_hand A_shadow \<le> L
    \<and> (A_shadow \<le> 0 \<or> A_hand \<le> 0 \<longrightarrow> estimateH L A_hand A_shadow = L)
    \<and> (0 < A_shadow \<and> A_shadow < A_hand \<longrightarrow> estimateH L A_hand A_shadow = 0)
    \<and> (0 < A_hand \<and> A_hand \<le> A_shadow \<longrightarrow>
          0 < A_shadow
        \<and> estimateH L A_hand A_shadow = max 0 (L - L * sqrt (A_hand / A_shadow))
        \<and> L - L * sqrt (A_hand / A_shadow) \<le> L)"
proof -
  have first: "A_shadow \<le> 0 \<or> A_hand \<le> 0 \<Longrightarrow> estimateH L A_hand A_shadow = L"
    by (auto simp: estimateH_def)
  have second: "0 < A_shadow \<and> A_shadow < A_hand \<Longrightarrow> estimateH L A_hand A_shadow = 0"
    by (simp add: estimateH_def Let_def)
  have third: "L - L * sqrt (A_hand / A_shadow) \<le> L
      \<and> max 0 (L - L * sqrt (A_hand / A_shadow)) \<le> L"
    if "0 < A_hand \<and> A_hand \<le> A_shadow"
  proof -
    have "0 \<le> sqrt (A_hand / A_shadow)" using that sqrt_ratio_unit by blast
    then have "0 \<le> L * sqrt (A_hand / A_shadow)" using assms by simp
    then show ?thesis using assms by simp
  qed
  consider "A_shadow \<le> 0 \<or> A_hand \<le> 0" | "0 < A_shadow \<and> A_shadow < A_hand"
    | "0 < A_hand \<and> A_hand \<le> A_shadow" by linarith
  then have range: "0 \<le> estimateH L A_hand A_shadow \<and> estimateH L A_hand A_shadow \<le> L"
  proof cases
    case 1
    then show ?thesis using first assms by simp
  next
    case 2
    then show ?thesis using second assms by simp
  next
    case 3
    then show ?thesis using third estimateH_main_branch [of A_hand A_shadow L] by simp
  qed
  show ?thesis
    using range first second third estimateH_main_branch [of A_hand A_shadow L]
    by (intro conjI impI) auto
qed

theorem estimateH_range_witness:
  "(0::real) < 50 \<and> 0 \<le> estimateH 50 2000 8000 \<and> estimateH 50 2000 8000 \<le> 50
    \<and> estimateH 50 2000 8000 = max 0 (50 - 50 * sqrt (2000 / 8000))
    \<and> estimateH 50 0 8000 = 50 \<and> estimateH 50 2000 1000 = 0"
  using estimateH_range [of 50 2000 8000] estimateH_range [of 50 0 8000]
    estimateH_range [of 50 2000 1000]
  by simp

section \<open>Properties of the stability tracker\<close>

lemma foldl_plus_sum_list: "foldl (\<lambda>a b. a + f b) a0 xs = a0 + (\<Sum>x\<leftarrow>xs. f x)" for a0 :: real
  by (induction xs arbitrary: a0) simp_all

lemma getStats_mean: "mean (getStats xs) = window_mean xs"
  using foldl_plus_sum_list [of "\<lambda>b. b" 0 xs] by (simp add: getStats_def window_mean_def Let_def)

lemma getStats_stdDev: "stdDev (getStats xs) = window_stddev xs"
  using foldl_plus_sum_list [of "\<lambda>b. b" 0 xs]
    foldl_plus_sum_list [of "\<lambda>b. (b - window_mean xs)\<^sup>2" 0 xs]
  by (simp add: getStats_def window_stddev_def window_mean_def Let_def)

lemma fold_pair_sums:
  "fold (\<lambda>i (a, b). (a + f i, b + g i)) [m..<n] (a0, b0)
     = (a0 + (\<Sum>i = m..<n. f i), b0 + (\<Sum>i = m..<n. g i))" for a0 b0 :: real
proof (induction n)
  case 0
  then show ?case by simp
next
  case (Suc n)
  show ?case
  proof (cases "m \<le> n")
    case True
    then show ?thesis using Suc by (simp add: upt_Suc_append)
  next
    case False
    then show ?thesis by simp
  qed
qed

lemma totalDeltas_sums:
  "totalDeltas h = ((\<Sum>i = 1..<length h. \<bar>width (h ! i) - width (h ! (i - 1))\<bar>),
                    (\<Sum>i = 1..<length h. \<bar>height (h ! i) - height (h ! (i - 1))\<bar>))"
  unfolding totalDeltas_def by (simp add: fold_pair_sums)

lemma delta_map:
  "(\<Sum>i = 1..<length h. \<bar>f (h ! i) - f (h ! (i - 1))\<bar>) / (real (length h) - 1)
     = mean_abs_delta (map f h)"
proof -
  have "(\<Sum>i = 1..<length h. \<bar>f (h ! i) - f (h ! (i - 1))\<bar>)
      = (\<Sum>i = 1..<length h. \<bar>map f h ! i - map f h ! (i - 1)\<bar>)"
    by (rule sum.cong) auto
  then show ?thesis by (simp add: mean_abs_delta_def)
qed

lemma stabilityVerdict_six: "stabilityVerdict h = six_conditions h"
  unfolding stabilityVerdict_def six_conditions_def Let_def getStats_mean getStats_stdDev
    totalDeltas_sums prod.case delta_map
  by (simp add: mult.commute)

lemma window_mean_replicate: "0 < n \<Longrightarrow> window_mean (replicate n a) = a"
  by (simp add: window_mean_def sum_list_replicate)

lemma window_stddev_replicate: "0 < n \<Longrightarrow> window_stddev (replicate n a) = 0"
  by (simp add: window_stddev_def window_mean_replicate sum_list_replicate)

lemma mean_abs_delta_replicate: "mean_abs_delta (replicate n a) = 0"
proof -
  have "(\<Sum>i = 1..<n. \<bar>replicate n a ! i - replicate n a ! (i - 1)\<bar>) = 0"
    by (rule sum.neutral) auto
  then show ?thesis by (simp add: mean_abs_delta_def)
qed

lemma six_conditions_replicate:
  "0 < n \<Longrightarrow> six_conditions (replicate n f) \<longleftrightarrow> 150 < area f \<and> intensity f < 65"
  by (auto simp: six_conditions_def window_mean_replicate window_stddev_replicate
      mean_abs_delta_replicate)

lemma observeAll_snoc: "observeAll s (ds @ [d]) = observe (observeAll s ds) d"
  by (simp add: observeAll_def)

lemma observeAll_identical:
  "observeAll reset (replicate n d) =
     \<lparr>frameHistory = replicate (min n 25) (currentFrame d),
      isStable = (25 < n \<and> six_conditions (replicate 25 (currentFrame d)))\<rparr>"
proof (induction n)
  case 0
  then show ?case by (simp add: observeAll_def reset_def)
next
  case (Suc n)
  have snoc: "replicate (Suc n) d = replicate n d @ [d]"
    by (simp add: replicate_append_same)
  consider "n < 25" | "n = 25" | "25 < n" by linarith
  then show ?case
  proof cases
    case 1
    then show ?thesis
      unfolding snoc observeAll_snoc Suc.IH
      by (simp add: observe_def Let_def min_def replicate_append_same)
  next
    case 2
    then show ?thesis
      unfolding snoc observeAll_snoc Suc.IH
      by (simp add: observe_def Let_def stabilityVerdict_six replicate_append_same)
  next
    case 3
    then show ?thesis
      unfolding snoc observeAll_snoc Suc.IH
      by (simp add: observe_def Let_def stabilityVerdict_six replicate_append_same)
  qed
qed

lemma currentFrame_area_intensity:
  "area (currentFrame d) = real (count d)" "intensity (currentFrame d) = avgIntensity d"
  by (simp_all add: currentFrame_def Let_def)





text \<open>
  C4 (as amended). Feeding 26 or more identical observations with area 500, any fixed
  bounding box and average intensity 40 into a tracker that starts from an empty history
  yields stable.
\<close>

theorem identical_observations_stable:
  assumes "count d = 500" and "avgIntensity d = 40" and "26 \<le> n"
  shows "isStable (observeAll reset (replicate n d))"
  using assms
  by (simp add: observeAll_identical six_conditions_replicate currentFrame_area_intensity)

theorem identical_observations_stable_witness:
  "count \<lparr>count = 500, minX = 3, minY = 4, maxX = 33, maxY = 24, avgIntensity = 40\<rparr> = 500
   \<and> avgIntensity \<lparr>count = 500, minX = 3, minY = 4, maxX = 33, maxY = 24, avgIntensity = 40\<rparr> = 40
   \<and> (26::nat) \<le> 26
   \<and> isStable (observeAll reset (replicate 26
        \<lparr>count = 500, minX = 3, minY = 4, maxX = 33, maxY = 24, avgIntensity = 40\<rparr>))"
  using identical_observations_stable
    [of "\<lparr>count = 500, minX = 3, minY = 4, maxX = 33, maxY = 24, avgIntensity = 40\<rparr>" 26]
  by simp

text \<open>After exactly 25 such observations the tracker reports not stable.\<close>

theorem twenty_five_identical_not_stable:
  "\<not> isStable (observeAll reset (replicate 25
       \<lparr>count = 500, minX = 3, minY = 4, maxX = 33, maxY = 24, avgIntensity = 40\<rparr>))"
  by (simp add: observeAll_identical)

section \<open>Properties of the segmenter\<close>

subsection \<open>Invariant rules for the loops; one step of the mask loop on the buffer\<close>

lemma fold_upt_invariant:
  assumes "P 0 s"
    and "\<And>i t. i < n \<Longrightarrow> P i t \<Longrightarrow> P (Suc i) (f i t)"
  shows "P n (fold f [0..<n] s)"
proof -
  have "m \<le> n \<Longrightarrow> P m (fold f [0..<m] s)" for m
  proof (induction m)
    case 0
    then show ?case using assms(1) by simp
  next
    case (Suc m)
    then show ?case using assms(2) [of m] by simp
  qed
  then show ?thesis by simp
qed

lemma mask_loop_invariant:
  assumes init: "I 0 s"
    and step: "\<And>y x t. y < h \<Longrightarrow> x < w \<Longrightarrow> I (y * w + x) t
                 \<Longrightarrow> I (Suc (y * w + x)) (pixel_step gs thr w y x t)"
  shows "I (h * w) (mask_loop gs thr w h s)"
  unfolding mask_loop_def
proof (rule fold_upt_invariant [where P = "\<lambda>y t. I (y * w) t"])
  show "I (0 * w) s" using init by simp
next
  fix y t
  assume y: "y < h" and row: "I (y * w) t"
  have "I (y * w + w) (fold (pixel_step gs thr w y) [0..<w] t)"
  proof (rule fold_upt_invariant [where P = "\<lambda>x t. I (y * w + x) t"])
    show "I (y * w + 0) t" using row by simp
  next
    fix x u
    assume "x < w" "I (y * w + x) u"
    then show "I (y * w + Suc x) (pixel_step gs thr w y x u)" using step [OF y] by simp
  qed
  then show "I (Suc y * w) (fold (pixel_step gs thr w y) [0..<w] t)"
    by (simp add: add.commute)
qed


lemma shadow_set_finite: "finite (shadow_set d thr k)"
  by (simp add: shadow_set_def)

lemma shadow_set_0: "shadow_set d thr 0 = {}"
  by (simp add: shadow_set_def)

lemma shadow_set_Suc:
  "shadow_set d thr (Suc k) =
     (if isShadow_at d thr k then insert k (shadow_set d thr k) else shadow_set d thr k)"
  by (auto simp: shadow_set_def less_Suc_eq)

lemma shadow_set_fresh: "k \<notin> shadow_set d thr k"
  by (simp add: shadow_set_def)

lemma shadow_set_bound: "j \<in> shadow_set d thr k \<Longrightarrow> j < k"
  by (simp add: shadow_set_def)

lemma rd_same:
  assumes "length a = length d" and "i < length d \<Longrightarrow> a ! i = d ! i"
  shows "rd a i = rd d i"
  using assms by (simp add: rd_def)

lemma pixel_step_reads:
  assumes inv: "mask_inv d thr w h k t" and c: "c < 4"
  shows "rd (data t) (k * 4 + c) = rd d (k * 4 + c)"
proof (rule rd_same)
  show "length (data t) = length d" using inv by (simp add: mask_inv_def)
next
  assume lt: "k * 4 + c < length d"
  have "(k * 4 + c) div 4 = k" using c by simp
  then show "data t ! (k * 4 + c) = d ! (k * 4 + c)"
    using inv lt by (simp add: mask_inv_def)
qed

lemma min_max_step:
  fixes x m :: nat
  shows "(if x < m then x else m) = min x m" "(if x > m then x else m) = max x m"
  by auto

lemma Min_insert_image:
  assumes "finite S"
  shows "Min (insert a (f ` insert k S)) = min (f k) (Min (insert a (f ` S)))"
proof -
  have "insert a (f ` insert k S) = insert (f k) (insert a (f ` S))" by auto
  then show ?thesis using assms by simp
qed

lemma Max_insert_image:
  assumes "finite S"
  shows "Max (insert a (f ` insert k S)) = max (f k) (Max (insert a (f ` S)))"
proof -
  have "insert a (f ` insert k S) = insert (f k) (insert a (f ` S))" by auto
  then show ?thesis using assms by simp
qed

lemma mask_data_step:
  assumes len: "length a = length d"
    and old: "\<forall>i < length d. a ! i =
         (if i div 4 < k then mask_byte (isShadow_at d thr (i div 4)) (i mod 4) else d ! i)"
    and sh: "sh = isShadow_at d thr k"
    and v: "v = (if sh then 0 else 255)"
  shows "\<forall>i < length d. (a[k * 4 := v, k * 4 + 1 := v, k * 4 + 2 := v, k * 4 + 3 := 255]) ! i =
         (if i div 4 < Suc k then mask_byte (isShadow_at d thr (i div 4)) (i mod 4) else d ! i)"
proof (intro allI impI)
  fix i assume i: "i < length d"
  consider "i div 4 < k" | "i div 4 = k" | "k < i div 4" by linarith
  then show "(a[k * 4 := v, k * 4 + 1 := v, k * 4 + 2 := v, k * 4 + 3 := 255]) ! i =
         (if i div 4 < Suc k then mask_byte (isShadow_at d thr (i div 4)) (i mod 4) else d ! i)"
  proof cases
    case 1
    then have ne: "i \<noteq> k * 4" "i \<noteq> k * 4 + 1" "i \<noteq> k * 4 + 2" "i \<noteq> k * 4 + 3" by auto
    show ?thesis using 1 ne old i by simp
  next
    case 2
    then have "i = k * 4 + i mod 4" by presburger
    moreover have "i mod 4 = 0 \<or> i mod 4 = 1 \<or> i mod 4 = 2 \<or> i mod 4 = 3" by presburger
    ultimately have cases: "i = k * 4 \<and> i mod 4 = 0 \<or> i = k * 4 + 1 \<and> i mod 4 = 1
        \<or> i = k * 4 + 2 \<and> i mod 4 = 2 \<or> i = k * 4 + 3 \<and> i mod 4 = 3" by presburger
    have in_range: "i < length a" using i len by simp
    show ?thesis using 2 cases in_range sh v len
      by (auto simp: mask_byte_def nth_list_update)
  next
    case 3
    then have ne: "i \<noteq> k * 4" "i \<noteq> k * 4 + 1" "i \<noteq> k * 4 + 2" "i \<noteq> k * 4 + 3" by auto
    show ?thesis using 3 ne old i by simp
  qed
qed

subsection \<open>The mask loop computes the shadow set of the original buffer\<close>

lemma pixel_step_shadow:
  assumes inv: "mask_inv d thr w h (y * w + x) t"
    and gs: "gs ! (y * w + x) = gray_at d (y * w + x)"
  shows "pixel_step gs thr w y x t =
     (if isShadow_at d thr (y * w + x)
      then t\<lparr>shadowPixelCount := shadowPixelCount t + 1,
             intensitySum := intensitySum t + gray_at d (y * w + x),
             minX_var := min x (minX_var t),
             maxX_var := max x (maxX_var t),
             minY_var := min y (minY_var t),
             maxY_var := max y (maxY_var t),
             data := (data t)[(y * w + x) * 4 := 0, (y * w + x) * 4 + 1 := 0,
                              (y * w + x) * 4 + 2 := 0, (y * w + x) * 4 + 3 := 255]\<rparr>
      else t\<lparr>data := (data t)[(y * w + x) * 4 := 255, (y * w + x) * 4 + 1 := 255,
                              (y * w + x) * 4 + 2 := 255, (y * w + x) * 4 + 3 := 255]\<rparr>)"
proof -
  have r0: "rd (data t) ((y * w + x) * 4) = rd d ((y * w + x) * 4)"
    using pixel_step_reads [OF inv, of 0] by simp
  have r1: "rd (data t) ((y * w + x) * 4 + 1) = rd d ((y * w + x) * 4 + 1)"
    using pixel_step_reads [OF inv, of 1] by simp
  have r2: "rd (data t) ((y * w + x) * 4 + 2) = rd d ((y * w + x) * 4 + 2)"
    using pixel_step_reads [OF inv, of 2] by simp
  show ?thesis
    unfolding pixel_step_def Let_def r0 r1 r2 gs min_max_step
    by (auto simp: isShadow_at_def)
qed

lemma mask_inv_step:
  assumes inv: "mask_inv d thr w h (y * w + x) t"
    and x: "x < w"
    and gs: "gs ! (y * w + x) = gray_at d (y * w + x)"
  shows "mask_inv d thr w h (Suc (y * w + x)) (pixel_step gs thr w y x t)"
proof -
  let ?k = "y * w + x"
  let ?S = "shadow_set d thr ?k"
  have fin: "finite ?S" by (rule shadow_set_finite)
  have kx: "?k mod w = x" and ky: "?k div w = y" using x by simp_all
  have len: "length (data t) = length d" using inv by (simp add: mask_inv_def)
  have old: "\<forall>i < length d. data t ! i =
         (if i div 4 < ?k then mask_byte (isShadow_at d thr (i div 4)) (i mod 4) else d ! i)"
    using inv by (simp add: mask_inv_def)
  show ?thesis
  proof (cases "isShadow_at d thr ?k")
    case True
    have step: "pixel_step gs thr w y x t =
        t\<lparr>shadowPixelCount := shadowPixelCount t + 1,
           intensitySum := intensitySum t + gray_at d ?k,
           minX_var := min x (minX_var t),
           maxX_var := max x (maxX_var t),
           minY_var := min y (minY_var t),
           maxY_var := max y (maxY_var t),
           data := (data t)[?k * 4 := 0, ?k * 4 + 1 := 0, ?k * 4 + 2 := 0, ?k * 4 + 3 := 255]\<rparr>"
      using pixel_step_shadow [OF inv gs] True by simp
    have set: "shadow_set d thr (Suc ?k) = insert ?k ?S"
      using True by (simp add: shadow_set_Suc)
    have dat: "\<forall>i < length d.
        ((data t)[?k * 4 := 0, ?k * 4 + 1 := 0, ?k * 4 + 2 := 0, ?k * 4 + 3 := 255]) ! i =
         (if i div 4 < Suc ?k then mask_byte (isShadow_at d thr (i div 4)) (i mod 4) else d ! i)"
      using mask_data_step [OF len old, of True 0] True by simp
    have cnt: "card (insert ?k ?S) = shadowPixelCount t + 1"
      using inv fin shadow_set_fresh [of ?k d thr] by (simp add: mask_inv_def)
    have sm: "(\<Sum>j \<in> insert ?k ?S. gray_at d j) = intensitySum t + gray_at d ?k"
      using inv fin shadow_set_fresh [of ?k d thr] by (simp add: mask_inv_def)
    have mnx: "Min (insert w ((\<lambda>j. j mod w) ` insert ?k ?S)) = min x (minX_var t)"
      using inv Min_insert_image [OF fin, of w "\<lambda>j. j mod w" ?k] kx by (simp add: mask_inv_def)
    have mxx: "Max (insert 0 ((\<lambda>j. j mod w) ` insert ?k ?S)) = max x (maxX_var t)"
      using inv Max_insert_image [OF fin, of 0 "\<lambda>j. j mod w" ?k] kx by (simp add: mask_inv_def)
    have mny: "Min (insert h ((\<lambda>j. j div w) ` insert ?k ?S)) = min y (minY_var t)"
      using inv Min_insert_image [OF fin, of h "\<lambda>j. j div w" ?k] ky by (simp add: mask_inv_def)
    have mxy: "Max (insert 0 ((\<lambda>j. j div w) ` insert ?k ?S)) = max y (maxY_var t)"
      using inv Max_insert_image [OF fin, of 0 "\<lambda>j. j div w" ?k] ky by (simp add: mask_inv_def)
    show ?thesis
      unfolding mask_inv_def step set
      using len dat cnt sm mnx mxx mny mxy by simp
  next
    case False
    have step: "pixel_step gs thr w y x t =
        t\<lparr>data := (data t)[?k * 4 := 255, ?k * 4 + 1 := 255, ?k * 4 + 2 := 255,
                          ?k * 4 + 3 := 255]\<rparr>"
      using pixel_step_shadow [OF inv gs] False by simp
    have set: "shadow_set d thr (Suc ?k) = ?S"
      using False by (simp add: shadow_set_Suc)
    have dat: "\<forall>i < length d.
        ((data t)[?k * 4 := 255, ?k * 4 + 1 := 255, ?k * 4 + 2 := 255, ?k * 4 + 3 := 255]) ! i =
         (if i div 4 < Suc ?k then mask_byte (isShadow_at d thr (i div 4)) (i mod 4) else d ! i)"
      using mask_data_step [OF len old, of False 255] False by simp
    show ?thesis
      unfolding mask_inv_def step set
      using len dat inv by (simp add: mask_inv_def)
  qed
qed

lemma mask_inv_init:
  "mask_inv d thr w h 0
     \<lparr>data = d, shadowPixelCount = 0, intensitySum = 0,
      minX_var = w, minY_var = h, maxX_var = 0, maxY_var = 0\<rparr>"
  by (simp add: mask_inv_def shadow_set_0)

lemma mask_loop_correct:
  assumes gs: "\<forall>j < h * w. gs ! j = gray_at d j"
  shows "mask_inv d thr w h (h * w)
     (mask_loop gs thr w h
        \<lparr>data = d, shadowPixelCount = 0, intensitySum = 0,
         minX_var = w, minY_var = h, maxX_var = 0, maxY_var = 0\<rparr>)"
proof (rule mask_loop_invariant [where I = "mask_inv d thr w h"])
  show "mask_inv d thr w h 0
     \<lparr>data = d, shadowPixelCount = 0, intensitySum = 0,
      minX_var = w, minY_var = h, maxX_var = 0, maxY_var = 0\<rparr>"
    by (rule mask_inv_init)
next
  fix y x t
  assume y: "y < h" and x: "x < w" and inv: "mask_inv d thr w h (y * w + x) t"
  have "y * w + x < h * w"
  proof -
    have "y * w + x < y * w + w" using x by simp
    also have "\<dots> = Suc y * w" by simp
    also have "\<dots> \<le> h * w" using y by (intro mult_le_mono1) simp
    finally show ?thesis .
  qed
  then have "gs ! (y * w + x) = gray_at d (y * w + x)" using gs by simp
  then show "mask_inv d thr w h (Suc (y * w + x)) (pixel_step gs thr w y x t)"
    using mask_inv_step [OF inv x] by simp
qed

subsection \<open>The grayscale loop; the summary in terms of the final loop state\<close>

lemma gray_step_at:
  "gray_step d (4 * k) (gs, hist) =
     (gs[k := ToUint8Clamp (pixel_gray d k)],
      (case pixel_gray d k of None \<Rightarrow> hist | Some v \<Rightarrow> hist[v := hist ! v + 1]))"
  by (simp add: gray_step_def pixel_gray_def Let_def mult.commute)

lemma card_level_Suc:
  "card {j. j < Suc k \<and> f j = Some v} =
     (if f k = Some v then Suc (card {j. j < k \<and> f j = Some v})
      else card {j. j < k \<and> f j = Some v})"
proof (cases "f k = Some v")
  case True
  have "{j. j < Suc k \<and> f j = Some v} = insert k {j. j < k \<and> f j = Some v}"
    using True by (auto simp: less_Suc_eq)
  then show ?thesis using True by simp
next
  case False
  have "{j. j < Suc k \<and> f j = Some v} = {j. j < k \<and> f j = Some v}"
    using False by (auto simp: less_Suc_eq)
  then show ?thesis using False by simp
qed

lemma gray_inv_step:
  assumes "gray_inv d n k st"
  shows "gray_inv d n (Suc k) (gray_step d (4 * k) st)"
proof -
  obtain gs hist where st: "st = (gs, hist)" by (cases st)
  have len: "length gs = n" "length hist = 256"
    and gsv: "\<forall>j < n. gs ! j = (if j < k then ToUint8Clamp (pixel_gray d j) else 0)"
    and hv: "\<forall>v < 256. hist ! v = card {j. j < k \<and> pixel_gray d j = Some v}"
    using assms by (simp_all add: gray_inv_def st)
  have gs': "\<forall>j < n. gs[k := ToUint8Clamp (pixel_gray d k)] ! j =
       (if j < Suc k then ToUint8Clamp (pixel_gray d j) else 0)"
    using gsv len by (auto simp: nth_list_update less_Suc_eq)
  have h': "\<forall>v < 256.
       (case pixel_gray d k of None \<Rightarrow> hist | Some u \<Rightarrow> hist[u := hist ! u + 1]) ! v =
       card {j. j < Suc k \<and> pixel_gray d j = Some v}"
  proof (intro allI impI)
    fix v :: nat assume v: "v < 256"
    show "(case pixel_gray d k of None \<Rightarrow> hist | Some u \<Rightarrow> hist[u := hist ! u + 1]) ! v =
       card {j. j < Suc k \<and> pixel_gray d j = Some v}"
    proof (cases "pixel_gray d k")
      case None
      then show ?thesis using hv v by (simp add: card_level_Suc)
    next
      case (Some u)
      then show ?thesis using hv v len by (auto simp: card_level_Suc nth_list_update)
    qed
  qed
  have len': "length (case pixel_gray d k of None \<Rightarrow> hist | Some u \<Rightarrow> hist[u := hist ! u + 1]) = 256"
    using len by (simp split: option.split)
  show ?thesis
    unfolding st gray_step_at gray_inv_def using len gs' h' len' by simp
qed

lemma gray_loop_inv: "gray_inv d n ((length d + 3) div 4) (gray_loop d n)"
proof -
  have "gray_loop d n =
      fold (\<lambda>k. gray_step d (4 * k)) [0..<(length d + 3) div 4] (replicate n 0, replicate 256 0)"
    by (simp add: gray_loop_def fold_map comp_def)
  moreover have "gray_inv d n ((length d + 3) div 4)
      (fold (\<lambda>k. gray_step d (4 * k)) [0..<(length d + 3) div 4] (replicate n 0, replicate 256 0))"
  proof (rule fold_upt_invariant [where P = "gray_inv d n"])
    show "gray_inv d n 0 (replicate n 0, replicate 256 0)" by (simp add: gray_inv_def)
  next
    fix i t assume "gray_inv d n i t"
    then show "gray_inv d n (Suc i) (gray_step d (4 * i) t)" by (rule gray_inv_step)
  qed
  ultimately show ?thesis by simp
qed

lemma gray_at_pixel_gray:
  "gray_at d j = (if j < (length d + 3) div 4 then ToUint8Clamp (pixel_gray d j) else 0)"
proof -
  have "j < (length d + 3) div 4 \<longleftrightarrow> j * 4 < length d" by presburger
  then show ?thesis by (simp add: gray_at_def pixel_gray_def)
qed

lemma gray_loop_grayscale:
  "length (fst (gray_loop d n)) = n"
  "j < n \<Longrightarrow> fst (gray_loop d n) ! j = gray_at d j"
  using gray_loop_inv [of d n]
  by (auto simp: gray_inv_def gray_at_pixel_gray split: prod.splits)


lemma generateShadowMask_result:
  "generateShadowMask d w h =
     (let s = mask_result d w h; c = shadowPixelCount s
      in (\<lparr>count = c,
           minX = (if c > 0 then minX_var s else 0),
           minY = (if c > 0 then minY_var s else 0),
           maxX = (if c > 0 then maxX_var s else 0),
           maxY = (if c > 0 then maxY_var s else 0),
           avgIntensity = (if c > 0 then real (intensitySum s) / real c else 0)\<rparr>,
          data s))"
  by (simp add: generateShadowMask_def mask_result_def Let_def split: prod.splits)

lemma mask_result_inv:
  "mask_inv d (finalThreshold d w h) w h (w * h) (mask_result d w h)"
proof -
  have "\<forall>j < h * w. fst (gray_loop d (w * h)) ! j = gray_at d j"
    by (simp add: gray_loop_grayscale mult.commute)
  then have "mask_inv d (finalThreshold d w h) w h (h * w) (mask_result d w h)"
    unfolding mask_result_def by (rule mask_loop_correct)
  then show ?thesis by (simp add: mult.commute)
qed

lemma finalThreshold_bounds: "30 \<le> finalThreshold d w h" "finalThreshold d w h \<le> 80"
  by (simp_all add: finalThreshold_def Let_def split: prod.splits)

subsection \<open>The summary and the mask in closed form; bounds\<close>

lemma summary_char:
  "fst (generateShadowMask d w h) =
     (let S = shadow_set d (finalThreshold d w h) (w * h); c = card S
      in \<lparr>count = c,
          minX = (if c > 0 then Min (insert w ((\<lambda>j. j mod w) ` S)) else 0),
          minY = (if c > 0 then Min (insert h ((\<lambda>j. j div w) ` S)) else 0),
          maxX = (if c > 0 then Max (insert 0 ((\<lambda>j. j mod w) ` S)) else 0),
          maxY = (if c > 0 then Max (insert 0 ((\<lambda>j. j div w) ` S)) else 0),
          avgIntensity = (if c > 0 then real (\<Sum>j \<in> S. gray_at d j) / real c else 0)\<rparr>)"
  using mask_result_inv [of d w h]
  by (simp add: generateShadowMask_result mask_inv_def Let_def)

lemma mask_char:
  "length (snd (generateShadowMask d w h)) = length d"
  "i < length d \<Longrightarrow> snd (generateShadowMask d w h) ! i =
     (if i div 4 < w * h
      then mask_byte (isShadow_at d (finalThreshold d w h) (i div 4)) (i mod 4) else d ! i)"
  using mask_result_inv [of d w h]
  by (simp_all add: generateShadowMask_result mask_inv_def Let_def)

lemma shadow_set_card_le: "card (shadow_set d thr k) \<le> k"
proof -
  have "shadow_set d thr k \<subseteq> {..<k}" by (auto simp: shadow_set_def)
  then have "card (shadow_set d thr k) \<le> card {..<k}" by (intro card_mono) simp_all
  then show ?thesis by simp
qed

lemma box_x_bounds:
  fixes w :: nat and S :: "nat set"
  assumes ne: "S \<noteq> {}" and fin: "finite S" and w: "0 < w"
  shows "Min (insert w ((\<lambda>j. j mod w) ` S)) \<le> Max (insert 0 ((\<lambda>j. j mod w) ` S))"
    and "Max (insert 0 ((\<lambda>j. j mod w) ` S)) < w"
proof -
  obtain j where j: "j \<in> S" using ne by blast
  have "Min (insert w ((\<lambda>j. j mod w) ` S)) \<le> j mod w"
    using fin j by (intro Min_le) auto
  also have "j mod w \<le> Max (insert 0 ((\<lambda>j. j mod w) ` S))"
    using fin j by (intro Max_ge) auto
  finally show "Min (insert w ((\<lambda>j. j mod w) ` S)) \<le> Max (insert 0 ((\<lambda>j. j mod w) ` S))" .
  show "Max (insert 0 ((\<lambda>j. j mod w) ` S)) < w"
    using fin w by (subst Max_less_iff) auto
qed

lemma box_y_bounds:
  fixes w h :: nat and S :: "nat set"
  assumes ne: "S \<noteq> {}" and fin: "finite S" and bound: "\<forall>j \<in> S. j < w * h"
  shows "Min (insert h ((\<lambda>j. j div w) ` S)) \<le> Max (insert 0 ((\<lambda>j. j div w) ` S))"
    and "Max (insert 0 ((\<lambda>j. j div w) ` S)) < h"
proof -
  obtain j where j: "j \<in> S" using ne by blast
  have h: "0 < h" using bound j by (cases h) auto
  have "Min (insert h ((\<lambda>j. j div w) ` S)) \<le> j div w"
    using fin j by (intro Min_le) auto
  also have "j div w \<le> Max (insert 0 ((\<lambda>j. j div w) ` S))"
    using fin j by (intro Max_ge) auto
  finally show "Min (insert h ((\<lambda>j. j div w) ` S)) \<le> Max (insert 0 ((\<lambda>j. j div w) ` S))" .
  have "\<forall>j \<in> S. j div w < h"
  proof
    fix j assume "j \<in> S"
    then have "j < h * w" using bound by (simp add: mult.commute)
    then show "j div w < h" by (rule less_mult_imp_div_less)
  qed
  then show "Max (insert 0 ((\<lambda>j. j div w) ` S)) < h"
    using fin h by (subst Max_less_iff) auto
qed

lemma summary_bounds:
  fixes d w h
  defines "r \<equiv> fst (generateShadowMask d w h)"
  shows "count r \<le> w * h"
    and "0 < count r \<Longrightarrow> minX r \<le> maxX r \<and> maxX r < w \<and> minY r \<le> maxY r \<and> maxY r < h"
    and "count r = 0 \<Longrightarrow> minX r = 0 \<and> minY r = 0 \<and> maxX r = 0 \<and> maxY r = 0 \<and> avgIntensity r = 0"
proof -
  let ?S = "shadow_set d (finalThreshold d w h) (w * h)"
  have fin: "finite ?S" by (rule shadow_set_finite)
  show "count r \<le> w * h"
    by (simp add: r_def summary_char Let_def shadow_set_card_le)
  show "count r = 0 \<Longrightarrow> minX r = 0 \<and> minY r = 0 \<and> maxX r = 0 \<and> maxY r = 0 \<and> avgIntensity r = 0"
    by (simp add: r_def summary_char Let_def)
  assume pos: "0 < count r"
  then have c: "0 < card ?S" by (simp add: r_def summary_char Let_def)
  then have ne: "?S \<noteq> {}" by auto
  then obtain j where "j \<in> ?S" by blast
  then have "j < w * h" by (rule shadow_set_bound)
  then have w: "0 < w" by (cases w) auto
  have bound: "\<forall>j \<in> ?S. j < w * h" using shadow_set_bound by blast
  show "minX r \<le> maxX r \<and> maxX r < w \<and> minY r \<le> maxY r \<and> maxY r < h"
    using c box_x_bounds [OF ne fin w] box_y_bounds [OF ne fin bound]
    by (simp add: r_def summary_char Let_def)
qed

lemma mean_below_threshold:
  fixes d w h
  defines "r \<equiv> fst (generateShadowMask d w h)"
  assumes pos: "0 < count r"
  shows "avgIntensity r < real (finalThreshold d w h)"
proof -
  let ?T = "finalThreshold d w h"
  let ?S = "shadow_set d ?T (w * h)"
  have c: "0 < card ?S" using pos by (simp add: r_def summary_char Let_def)
  have T: "1 \<le> ?T" using finalThreshold_bounds(1) [of d w h] by simp
  have each: "\<forall>j \<in> ?S. gray_at d j \<le> ?T - 1"
    by (auto simp: shadow_set_def isShadow_at_def)
  have "(\<Sum>j \<in> ?S. gray_at d j) \<le> card ?S * (?T - 1)"
    using sum_bounded_above [of ?S "gray_at d" "?T - 1"] each by simp
  then have "real (\<Sum>j \<in> ?S. gray_at d j) \<le> real (card ?S * (?T - 1))"
    by (rule of_nat_mono)
  also have "\<dots> = real (card ?S) * (real ?T - 1)" using T by (simp add: of_nat_diff)
  finally have "real (\<Sum>j \<in> ?S. gray_at d j) / real (card ?S) \<le> real ?T - 1"
    using c by (simp add: pos_divide_le_eq mult.commute)
  then show ?thesis using c by (simp add: r_def summary_char Let_def)
qed

subsection \<open>Frames that are dark or bright throughout; buffers that are too short\<close>

lemma full_box:
  fixes w h :: nat
  assumes w: "0 < w" and h: "0 < h"
  shows "Min (insert w ((\<lambda>j. j mod w) ` {j. j < w * h})) = 0"
    and "Max (insert 0 ((\<lambda>j. j mod w) ` {j. j < w * h})) = w - 1"
    and "Min (insert h ((\<lambda>j. j div w) ` {j. j < w * h})) = 0"
    and "Max (insert 0 ((\<lambda>j. j div w) ` {j. j < w * h})) = h - 1"
proof -
  have n: "0 < w * h" using w h by simp
  have zero_x: "0 \<in> (\<lambda>j. j mod w) ` {j. j < w * h}"
    using n by (intro image_eqI [where x = 0]) simp_all
  have zero_y: "0 \<in> (\<lambda>j. j div w) ` {j. j < w * h}"
    using n by (intro image_eqI [where x = 0]) simp_all
  show "Min (insert w ((\<lambda>j. j mod w) ` {j. j < w * h})) = 0"
    using zero_x by (intro Min_eqI) auto
  show "Min (insert h ((\<lambda>j. j div w) ` {j. j < w * h})) = 0"
    using zero_y by (intro Min_eqI) auto
  have "w - 1 < w * h"
  proof -
    have "w - 1 < w" using w by simp
    also have "w \<le> w * h" using h by simp
    finally show ?thesis .
  qed
  then have last_x: "w - 1 \<in> (\<lambda>j. j mod w) ` {j. j < w * h}"
    using w by (intro image_eqI [where x = "w - 1"]) simp_all
  have le_x: "y \<le> w - 1" if "y \<in> insert 0 ((\<lambda>j. j mod w) ` {j. j < w * h})" for y
  proof -
    have "y < w" using that w by auto
    then show ?thesis by simp
  qed
  show "Max (insert 0 ((\<lambda>j. j mod w) ` {j. j < w * h})) = w - 1"
    using last_x le_x by (intro Max_eqI) auto
  have "(h - 1) * w < w * h"
  proof -
    have "h - 1 < h" using h by simp
    then have "(h - 1) * w < h * w" using w by simp
    then show ?thesis by (simp add: mult.commute)
  qed
  moreover have "(h - 1) * w div w = h - 1" using w by simp
  ultimately have last_y: "h - 1 \<in> (\<lambda>j. j div w) ` {j. j < w * h}"
    by (intro image_eqI [where x = "(h - 1) * w"]) simp_all
  have le_y: "y \<le> h - 1" if "y \<in> insert 0 ((\<lambda>j. j div w) ` {j. j < w * h})" for y
  proof -
    have "j div w < h" if "j < w * h" for j
      using that by (intro less_mult_imp_div_less) (simp add: mult.commute)
    then have "y < h" using that h by auto
    then show ?thesis by simp
  qed
  show "Max (insert 0 ((\<lambda>j. j div w) ` {j. j < w * h})) = h - 1"
    using last_y le_y by (intro Max_eqI) auto
qed

lemma all_dark_summary:
  assumes dark: "\<forall>j < w * h. gray_at d j < 30" and n: "1 \<le> w * h"
  shows "fst (generateShadowMask d w h) =
     \<lparr>count = w * h, minX = 0, minY = 0, maxX = w - 1, maxY = h - 1,
      avgIntensity = real (\<Sum>j \<in> {j. j < w * h}. gray_at d j) / real (w * h)\<rparr>"
proof -
  have w: "0 < w" and h: "0 < h" using n by (cases w; cases h; simp)+
  have "isShadow_at d (finalThreshold d w h) j" if "j < w * h" for j
    using that dark finalThreshold_bounds(1) [of d w h] by (auto simp: isShadow_at_def)
  then have S: "shadow_set d (finalThreshold d w h) (w * h) = {j. j < w * h}"
    by (auto simp: shadow_set_def)
  have card: "card {j. j < w * h} = w * h"
  proof -
    have "{j. j < w * h} = {..<w * h}" by auto
    then show ?thesis by simp
  qed
  show ?thesis
    unfolding summary_char Let_def S card
    using n full_box [OF w h] by simp
qed

lemma all_bright_summary:
  assumes bright: "\<forall>j < w * h. 80 \<le> gray_at d j"
  shows "fst (generateShadowMask d w h) =
     \<lparr>count = 0, minX = 0, minY = 0, maxX = 0, maxY = 0, avgIntensity = 0\<rparr>"
proof -
  have "\<not> isShadow_at d (finalThreshold d w h) j" if "j < w * h" for j
    using that bright finalThreshold_bounds(2) [of d w h] by (auto simp: isShadow_at_def)
  then have S: "shadow_set d (finalThreshold d w h) (w * h) = {}"
    by (auto simp: shadow_set_def)
  show ?thesis unfolding summary_char Let_def S by simp
qed



subsection \<open>Buffers that hold every pixel: the code agrees with the classification rule\<close>

lemma rd_channel:
  assumes "length d = w * h * 4" and "j < w * h" and "c < 4"
  shows "rd d (j * 4 + c) = Some (channel d j c)"
proof -
  have "j * 4 + c < w * h * 4" using assms(2,3) by simp
  then show ?thesis using assms(1) by (simp add: rd_def channel_def)
qed

lemma channel_le: "channel d j c \<le> 255"
proof -
  have "unat (d ! (j * 4 + c)) < 2 ^ LENGTH(8)" by (rule unsigned_less)
  then show ?thesis by (simp add: channel_def)
qed

lemma luminance_le:
  fixes r g b :: nat
  assumes "r \<le> 255" "g \<le> 255" "b \<le> 255"
  shows "nat (Math_round (real r * 0.299 + real g * 0.587 + real b * 0.114)) \<le> 255"
proof -
  define x where "x = real r * 0.299 + real g * 0.587 + real b * 0.114 + 1 / 2"
  have "real r \<le> 255" "real g \<le> 255" "real b \<le> 255" using assms by simp_all
  then have "x < 256" by (simp add: x_def)
  then have "\<lfloor>x\<rfloor> < 256" by (simp add: floor_less_iff)
  then have "nat \<lfloor>x\<rfloor> \<le> 255" by linarith
  then show ?thesis unfolding Math_round_def x_def .
qed

lemma wellformed_gray:
  assumes "length d = w * h * 4" and "j < w * h"
  shows "gray_at d j = spec_gray d j"
proof -
  have r: "rd d (j * 4) = Some (channel d j 0)" "rd d (j * 4 + 1) = Some (channel d j 1)"
    "rd d (j * 4 + 2) = Some (channel d j 2)"
    using rd_channel [OF assms, of 0] rd_channel [OF assms, of 1] rd_channel [OF assms, of 2]
    by simp_all
  have inside: "j * 4 < length d" using assms by simp
  have "nat (Math_round (real (channel d j 0) * 0.299 + real (channel d j 1) * 0.587
        + real (channel d j 2) * 0.114)) \<le> 255"
    by (intro luminance_le channel_le)
  then have "gray_at d j = nat (Math_round (real (channel d j 0) * 0.299
        + real (channel d j 1) * 0.587 + real (channel d j 2) * 0.114))"
    using inside unfolding gray_at_def r perceptual_gray_def ToUint8Clamp_def by simp
  also have "\<dots> = spec_gray d j"
    unfolding spec_gray_def Math_round_def round_def by (simp add: mult.commute)
  finally show ?thesis .
qed

lemma wellformed_sat:
  assumes "length d = w * h * 4" and "j < w * h"
  shows "js_lt (getSaturation (rd d (j * 4)) (rd d (j * 4 + 1)) (rd d (j * 4 + 2))) 60
     \<longleftrightarrow> spec_sat d j < 60"
proof -
  have r: "rd d (j * 4) = Some (channel d j 0)" "rd d (j * 4 + 1) = Some (channel d j 1)"
    "rd d (j * 4 + 2) = Some (channel d j 2)"
    using rd_channel [OF assms, of 0] rd_channel [OF assms, of 1] rd_channel [OF assms, of 2]
    by simp_all
  show ?thesis
    unfolding r getSaturation_def js_lt_def spec_sat_def Let_def
    by (simp add: max.assoc min.assoc mult.commute)
qed

lemma wellformed_shadow:
  assumes "length d = w * h * 4" and "j < w * h"
  shows "isShadow_at d thr j \<longleftrightarrow> spec_shadow d thr j"
  unfolding isShadow_at_def spec_shadow_def wellformed_gray [OF assms]
    wellformed_sat [OF assms] ..

lemma wellformed_shadow_set:
  assumes "length d = w * h * 4"
  shows "shadow_set d thr (w * h) = {j. j < w * h \<and> spec_shadow d thr j}"
  using wellformed_shadow [OF assms] by (auto simp: shadow_set_def)

lemma mask_pixel:
  assumes wf: "length d = w * h * 4" and j: "j < w * h" and c: "c < 4"
  shows "snd (generateShadowMask d w h) ! (j * 4 + c) =
     mask_byte (spec_shadow d (finalThreshold d w h) j) c"
proof -
  have lt: "j * 4 + c < length d" using wf j c by simp
  have "(j * 4 + c) div 4 = j" "(j * 4 + c) mod 4 = c" using c by simp_all
  then show ?thesis
    using mask_char(2) [OF lt, of w h] j wellformed_shadow [OF wf j] by simp
qed

subsection \<open>The segmenter applied to the mask it has written\<close>

lemma mask_channel:
  assumes wf: "length d = w * h * 4" and j: "j < w * h" and c: "c < 3"
  shows "channel (snd (generateShadowMask d w h)) j c =
     (if spec_shadow d (finalThreshold d w h) j then 0 else 255)"
proof -
  have "c < 4" using c by simp
  then show ?thesis
    using c unfolding channel_def mask_pixel [OF wf j \<open>c < 4\<close>] mask_byte_def by simp
qed

lemma mask_gray_sat:
  assumes wf: "length d = w * h * 4" and j: "j < w * h"
  shows "spec_gray (snd (generateShadowMask d w h)) j =
           (if spec_shadow d (finalThreshold d w h) j then 0 else 255)"
    and "spec_sat (snd (generateShadowMask d w h)) j = 0"
proof -
  have ch: "channel (snd (generateShadowMask d w h)) j 0 =
        (if spec_shadow d (finalThreshold d w h) j then 0 else 255)"
      "channel (snd (generateShadowMask d w h)) j 1 =
        (if spec_shadow d (finalThreshold d w h) j then 0 else 255)"
      "channel (snd (generateShadowMask d w h)) j 2 =
        (if spec_shadow d (finalThreshold d w h) j then 0 else 255)"
    using mask_channel [OF wf j] by simp_all
  show "spec_gray (snd (generateShadowMask d w h)) j =
           (if spec_shadow d (finalThreshold d w h) j then 0 else 255)"
    unfolding spec_gray_def ch round_def by simp
  show "spec_sat (snd (generateShadowMask d w h)) j = 0"
    unfolding spec_sat_def ch Let_def by simp
qed

lemma rerun_shadow:
  assumes wf: "length d = w * h * 4" and j: "j < w * h"
    and thr: "30 \<le> thr" "thr \<le> 80"
  shows "spec_shadow (snd (generateShadowMask d w h)) thr j
     \<longleftrightarrow> spec_shadow d (finalThreshold d w h) j"
  using thr unfolding spec_shadow_def [of "snd (generateShadowMask d w h)"]
    mask_gray_sat [OF wf j] by simp

lemma rerun_summary:
  assumes wf: "length d = w * h * 4"
  defines "r1 \<equiv> fst (generateShadowMask d w h)"
  defines "out1 \<equiv> snd (generateShadowMask d w h)"
  defines "r2 \<equiv> fst (generateShadowMask out1 w h)"
  shows "count r2 = count r1" "minX r2 = minX r1" "minY r2 = minY r1"
    "maxX r2 = maxX r1" "maxY r2 = maxY r1" "avgIntensity r2 = 0"
    "snd (generateShadowMask out1 w h) = out1"
proof -
  let ?T1 = "finalThreshold d w h"
  let ?T2 = "finalThreshold out1 w h"
  have wf1: "length out1 = w * h * 4" using wf by (simp add: out1_def mask_char(1))
  have same: "spec_shadow out1 ?T2 j \<longleftrightarrow> spec_shadow d ?T1 j" if "j < w * h" for j
    unfolding out1_def
    by (rule rerun_shadow [OF wf that]) (rule finalThreshold_bounds)+
  have S: "shadow_set out1 ?T2 (w * h) = shadow_set d ?T1 (w * h)"
    unfolding wellformed_shadow_set [OF wf] wellformed_shadow_set [OF wf1]
    using same by auto
  have gray0: "gray_at out1 j = 0" if "j \<in> shadow_set d ?T1 (w * h)" for j
  proof -
    have j: "j < w * h" and sh: "spec_shadow d ?T1 j"
      using that by (simp_all add: wellformed_shadow_set [OF wf])
    have "gray_at out1 j = spec_gray out1 j" by (rule wellformed_gray [OF wf1 j])
    also have "\<dots> = 0" using sh mask_gray_sat(1) [OF wf j] by (simp add: out1_def)
    finally show ?thesis .
  qed
  then have sum0: "(\<Sum>j \<in> shadow_set d ?T1 (w * h). gray_at out1 j) = 0" by simp
  show "count r2 = count r1" "minX r2 = minX r1" "minY r2 = minY r1"
    "maxX r2 = maxX r1" "maxY r2 = maxY r1"
    unfolding r1_def r2_def summary_char Let_def S by simp_all
  show "avgIntensity r2 = 0"
    unfolding r2_def summary_char Let_def S sum0 by simp
  show "snd (generateShadowMask out1 w h) = out1"
  proof (rule nth_equalityI)
    show "length (snd (generateShadowMask out1 w h)) = length out1" by (rule mask_char(1))
  next
    fix i assume "i < length (snd (generateShadowMask out1 w h))"
    then have i: "i < w * h * 4" using wf1 by (simp add: mask_char(1))
    then have j: "i div 4 < w * h" by simp
    have c: "i mod 4 < 4" by simp
    have split: "i = i div 4 * 4 + i mod 4" by simp
    have "snd (generateShadowMask out1 w h) ! (i div 4 * 4 + i mod 4)
        = mask_byte (spec_shadow out1 ?T2 (i div 4)) (i mod 4)"
      by (rule mask_pixel [OF wf1 j c])
    also have "\<dots> = mask_byte (spec_shadow d ?T1 (i div 4)) (i mod 4)"
      using same [OF j] by simp
    also have "\<dots> = out1 ! (i div 4 * 4 + i mod 4)"
      unfolding out1_def by (rule mask_pixel [OF wf j c, symmetric])
    finally show "snd (generateShadowMask out1 w h) ! i = out1 ! i"
      using split by simp
  qed
qed

lemma black_pixel_gray:
  assumes wf: "length d = w * h * 4" and j: "j < w * h"
    and black: "d ! (j * 4) = 0 \<and> d ! (j * 4 + 1) = 0 \<and> d ! (j * 4 + 2) = 0"
  shows "gray_at d j = 0"
proof -
  have "channel d j 0 = 0" "channel d j 1 = 0" "channel d j 2 = 0"
    using black by (simp_all add: channel_def)
  then show ?thesis
    unfolding wellformed_gray [OF wf j] spec_gray_def round_def by simp
qed

subsection \<open>Invariants of the summary\<close>

lemma perceptual_gray_equal: "perceptual_gray (Some v) (Some v) (Some v) = Some v"
proof -
  have "real v * 0.299 + real v * 0.587 + real v * 0.114 + 1 / 2 = real_of_int (int v) + 1 / 2"
    by (simp add: algebra_simps)
  moreover have "\<lfloor>real_of_int (int v) + 1 / 2\<rfloor> = int v"
    by (rule floor_unique) simp_all
  ultimately show ?thesis by (simp add: perceptual_gray_def Math_round_def)
qed

lemma one_gray_pixel:
  assumes "unat v \<le> 29"
  shows "fst (generateShadowMask [v, v, v, a] 1 1) =
     \<lparr>count = 1, minX = 0, minY = 0, maxX = 0, maxY = 0, avgIntensity = real (unat v)\<rparr>"
proof -
  have "unat v \<le> 255" using assms by simp
  then have g: "gray_at [v, v, v, a] 0 = unat v"
    by (simp add: gray_at_def rd_def perceptual_gray_equal ToUint8Clamp_def)
  have single: "{j::nat. j < 1 * 1} = {0}" by auto
  have "\<forall>j < 1 * 1. gray_at [v, v, v, a] j < 30" using g assms by simp
  then show ?thesis
    using all_dark_summary [of 1 1 "[v, v, v, a]"] g unfolding single by simp
qed

lemma one_white_pixel:
  "fst (generateShadowMask [255, 255, 255, a] 1 1) =
     \<lparr>count = 0, minX = 0, minY = 0, maxX = 0, maxY = 0, avgIntensity = 0\<rparr>"
proof -
  have g: "gray_at [255, 255, 255, a] 0 = 255"
    by (simp add: gray_at_def rd_def perceptual_gray_equal ToUint8Clamp_def)
  have "\<forall>j < 1 * 1. 80 \<le> gray_at [255, 255, 255, a] j" using g by simp
  then show ?thesis by (rule all_bright_summary)
qed

text \<open>
  C5. For every buffer and all dimensions (in particular for every frame with
  \<open>w * h \<ge> 1\<close>) the returned summary satisfies \<open>0 \<le> count \<le> w * h\<close> (the count is a natural
  number); when the count is positive the bounding box lies within \<open>[0, w) \<times> [0, h)\<close> with
  \<open>minX \<le> maxX\<close> and \<open>minY \<le> maxY\<close>; when the count is zero the box is all zeros and the
  average intensity is 0.
\<close>

theorem summary_invariants:
  "count (fst (generateShadowMask d w h)) \<le> w * h
   \<and> (0 < count (fst (generateShadowMask d w h)) \<longrightarrow>
        minX (fst (generateShadowMask d w h)) \<le> maxX (fst (generateShadowMask d w h))
      \<and> maxX (fst (generateShadowMask d w h)) < w
      \<and> minY (fst (generateShadowMask d w h)) \<le> maxY (fst (generateShadowMask d w h))
      \<and> maxY (fst (generateShadowMask d w h)) < h)
   \<and> (count (fst (generateShadowMask d w h)) = 0 \<longrightarrow>
        minX (fst (generateShadowMask d w h)) = 0 \<and> minY (fst (generateShadowMask d w h)) = 0
      \<and> maxX (fst (generateShadowMask d w h)) = 0 \<and> maxY (fst (generateShadowMask d w h)) = 0
      \<and> avgIntensity (fst (generateShadowMask d w h)) = 0)"
  using summary_bounds [of d w h] by blast

theorem summary_invariants_witness:
  "0 < count (fst (generateShadowMask [7, 7, 7, 255] 1 1))
   \<and> minX (fst (generateShadowMask [7, 7, 7, 255] 1 1))
       \<le> maxX (fst (generateShadowMask [7, 7, 7, 255] 1 1))
   \<and> maxX (fst (generateShadowMask [7, 7, 7, 255] 1 1)) < 1
   \<and> maxY (fst (generateShadowMask [7, 7, 7, 255] 1 1)) < 1
   \<and> count (fst (generateShadowMask [255, 255, 255, 255] 1 1)) = 0
   \<and> maxX (fst (generateShadowMask [255, 255, 255, 255] 1 1)) = 0
   \<and> avgIntensity (fst (generateShadowMask [255, 255, 255, 255] 1 1)) = 0"
proof -
  have dark: "0 < count (fst (generateShadowMask [7, 7, 7, 255] 1 1))"
    using one_gray_pixel [of 7 255] by simp
  have white: "count (fst (generateShadowMask [255, 255, 255, 255] 1 1)) = 0"
    using one_white_pixel [of 255] by simp
  show ?thesis
    using dark white summary_invariants [of "[7, 7, 7, 255]" 1 1]
      summary_invariants [of "[255, 255, 255, 255]" 1 1]
    by simp
qed

text \<open>
  C9. Whenever the returned pixel count is positive, the average intensity is strictly
  below the clamped threshold, which is at most 80, hence strictly below 80.
\<close>

theorem average_below_threshold:
  assumes "0 < count (fst (generateShadowMask d w h))"
  shows "avgIntensity (fst (generateShadowMask d w h)) < real (finalThreshold d w h)
       \<and> finalThreshold d w h \<le> 80
       \<and> avgIntensity (fst (generateShadowMask d w h)) < 80"
proof -
  have below: "avgIntensity (fst (generateShadowMask d w h)) < real (finalThreshold d w h)"
    using assms by (rule mean_below_threshold)
  have cap: "finalThreshold d w h \<le> 80" by (rule finalThreshold_bounds)
  then have "real (finalThreshold d w h) \<le> 80" by simp
  then show ?thesis using below cap by simp
qed

theorem average_below_threshold_witness:
  "0 < count (fst (generateShadowMask [10, 10, 10, 255] 1 1))
   \<and> avgIntensity (fst (generateShadowMask [10, 10, 10, 255] 1 1))
       < real (finalThreshold [10, 10, 10, 255] 1 1)
   \<and> avgIntensity (fst (generateShadowMask [10, 10, 10, 255] 1 1)) < 80"
proof -
  have pos: "0 < count (fst (generateShadowMask [10, 10, 10, 255] 1 1))"
    using one_gray_pixel [of 10 255] by simp
  show ?thesis using pos average_below_threshold [OF pos] by simp
qed

text \<open>
  C6. For every all-black frame (every pixel has R = G = B = 0) with \<open>w * h \<ge> 1\<close> the
  summary has \<open>count = w * h\<close>, bounding box \<open>(0, 0, w - 1, h - 1)\<close> and average intensity 0.
\<close>

theorem all_black_frame:
  assumes "length d = w * h * 4" and "1 \<le> w * h"
    and "\<forall>j < w * h. d ! (j * 4) = 0 \<and> d ! (j * 4 + 1) = 0 \<and> d ! (j * 4 + 2) = 0"
  shows "fst (generateShadowMask d w h) =
     \<lparr>count = w * h, minX = 0, minY = 0, maxX = w - 1, maxY = h - 1, avgIntensity = 0\<rparr>"
proof -
  have g: "gray_at d j = 0" if "j < w * h" for j
    using black_pixel_gray [OF assms(1) that] assms(3) that by simp
  then have "\<forall>j < w * h. gray_at d j < 30" by simp
  moreover have "(\<Sum>j \<in> {j. j < w * h}. gray_at d j) = 0" using g by simp
  ultimately show ?thesis using all_dark_summary [OF _ assms(2), of d] by simp
qed

theorem all_black_frame_witness:
  "length [0, 0, 0, 255, 0, 0, 0, 255 :: byte] = 2 * 1 * 4 \<and> (1::nat) \<le> 2 * 1
   \<and> fst (generateShadowMask [0, 0, 0, 255, 0, 0, 0, 255] 2 1) =
       \<lparr>count = 2 * 1, minX = 0, minY = 0, maxX = 2 - 1, maxY = 1 - 1, avgIntensity = 0\<rparr>"
proof -
  have black: "\<forall>j < 2 * 1. [0, 0, 0, 255, 0, 0, 0, 255 :: byte] ! (j * 4) = 0
      \<and> [0, 0, 0, 255, 0, 0, 0, 255 :: byte] ! (j * 4 + 1) = 0
      \<and> [0, 0, 0, 255, 0, 0, 0, 255 :: byte] ! (j * 4 + 2) = 0"
    by (auto simp: less_Suc_eq numeral_2_eq_2)
  show ?thesis
    using all_black_frame [of "[0, 0, 0, 255, 0, 0, 0, 255]" 2 1] black by simp
qed

subsection \<open>Classification, invalid shapes and repeated runs\<close>






text \<open>
  C8 (as amended). The segmenter overwrites the frame buffer with the black and white
  mask. Running it a second time on the buffer it left behind yields the same pixel count
  and the same bounding box, an average intensity of 0, and the same mask again.
\<close>

theorem rerun_on_mask:
  assumes "length d = w * h * 4"
  shows "count (fst (generateShadowMask (snd (generateShadowMask d w h)) w h))
           = count (fst (generateShadowMask d w h))
       \<and> minX (fst (generateShadowMask (snd (generateShadowMask d w h)) w h))
           = minX (fst (generateShadowMask d w h))
       \<and> minY (fst (generateShadowMask (snd (generateShadowMask d w h)) w h))
           = minY (fst (generateShadowMask d w h))
       \<and> maxX (fst (generateShadowMask (snd (generateShadowMask d w h)) w h))
           = maxX (fst (generateShadowMask d w h))
       \<and> maxY (fst (generateShadowMask (snd (generateShadowMask d w h)) w h))
           = maxY (fst (generateShadowMask d w h))
       \<and> avgIntensity (fst (generateShadowMask (snd (generateShadowMask d w h)) w h)) = 0
       \<and> snd (generateShadowMask (snd (generateShadowMask d w h)) w h)
           = snd (generateShadowMask d w h)"
  using rerun_summary [OF assms] by simp

theorem rerun_on_mask_witness:
  "length [10, 10, 10, 255 :: byte] = 1 * 1 * 4
   \<and> count (fst (generateShadowMask (snd (generateShadowMask [10, 10, 10, 255] 1 1)) 1 1))
       = count (fst (generateShadowMask [10, 10, 10, 255] 1 1))
   \<and> avgIntensity (fst (generateShadowMask (snd (generateShadowMask [10, 10, 10, 255] 1 1)) 1 1))
       = 0"
  using rerun_on_mask [of "[10, 10, 10, 255]" 1 1] by simp

text \<open>
  A 1 x 1 frame with the dark gray pixel (10, 10, 10): the first run reports average
  intensity 10, the second run on the same buffer reports 0.
\<close>

theorem second_run_differs:
  "avgIntensity (fst (generateShadowMask [10, 10, 10, 255] 1 1)) = 10
   \<and> avgIntensity (fst (generateShadowMask (snd (generateShadowMask [10, 10, 10, 255] 1 1)) 1 1))
       = 0
   \<and> fst (generateShadowMask (snd (generateShadowMask [10, 10, 10, 255] 1 1)) 1 1)
       \<noteq> fst (generateShadowMask [10, 10, 10, 255] 1 1)"
proof -
  have wf: "length [10, 10, 10, 255 :: byte] = 1 * 1 * 4" by simp
  have first: "avgIntensity (fst (generateShadowMask [10, 10, 10, 255] 1 1)) = 10"
    using one_gray_pixel [of 10 255] by simp
  have second:
    "avgIntensity (fst (generateShadowMask (snd (generateShadowMask [10, 10, 10, 255] 1 1)) 1 1))
       = 0"
    by (rule rerun_summary(6) [OF wf])
  have "avgIntensity (fst (generateShadowMask (snd (generateShadowMask [10, 10, 10, 255] 1 1)) 1 1))
       \<noteq> avgIntensity (fst (generateShadowMask [10, 10, 10, 255] 1 1))"
    unfolding first second by simp
  then have "fst (generateShadowMask (snd (generateShadowMask [10, 10, 10, 255] 1 1)) 1 1)
       \<noteq> fst (generateShadowMask [10, 10, 10, 255] 1 1)"
    by metis
  then show ?thesis using first second by simp
qed

subsection \<open>Sums over the histogram\<close>














subsection \<open>The best candidate so far\<close>






subsection \<open>The loop of computeOtsuThreshold\<close>






subsection \<open>The threshold returned; the histogram of a frame\<close>










subsection \<open>Two adjacent gray levels; the final threshold\<close>











end
